theory Spec2Isabelle
  imports Main
begin

section \<open>The lexer of \<^verbatim>\<open>lexer.ts\<close>\<close>

text \<open>
  A JavaScript string is a sequence of UTF-16 code units and \<^verbatim>\<open>sourceCode.split("")\<close>
  is the array of its code units. The lexer compares them with ASCII characters only, so the
  model takes a source text as a \<^typ>\<open>string\<close> (a list of \<^typ>\<open>char\<close>); the array
  \<^verbatim>\<open>src\<close> is that list, \<^verbatim>\<open>src[0]\<close> its head and \<^verbatim>\<open>src.shift()\<close> removes the head.
  A \<^typ>\<open>char\<close> has eight bits; the code units beyond them behave as the characters
  from 128 to 255 do: no class of the lexer holds them.
\<close>

subsection \<open>Tokens\<close>

text \<open>
  The enum \<^verbatim>\<open>TokenType\<close>, in the order of the source. \<^verbatim>\<open>Let\<close> and \<^verbatim>\<open>If\<close> carry
  a suffix, since HOL has constants of these names.
\<close>

datatype TokenType =
    Number | Identifier | String
  | Let_tok | Const | Fn | If_tok | Else | For
  | BinaryOperator | Equals | Comma | Colon | Semicolon | Dot
  | OpenParen | CloseParen | OpenBrace | CloseBrace | OpenBracket | CloseBracket
  | Quotation | Greater | Lesser | EqualsCompare | NotEqualsCompare | Exclamation
  | And | Ampersand | Bar | EOF

text \<open>
  The interface \<^verbatim>\<open>Token\<close>: the raw text and the tag. The function \<^verbatim>\<open>token\<close> has the
  default \<^verbatim>\<open>""\<close> for an undefined \<^verbatim>\<open>value\<close>; every call of the lexer passes a string.
\<close>

record Token =
  "value" :: string
  type :: TokenType

definition token :: "string \<Rightarrow> TokenType \<Rightarrow> Token" where
  "token v t = \<lparr>value = v, type = t\<rparr>"

text \<open>
  The table \<^verbatim>\<open>KEYWORDS\<close>: its six own properties. The lexer tests
  \<^verbatim>\<open>typeof reserved == "number"\<close>, which holds for the own properties only: a name
  inherited from \<^verbatim>\<open>Object.prototype\<close> (\<^verbatim>\<open>constructor\<close>, \<^verbatim>\<open>toString\<close>, ...) looks up
  a function or an object, never a number. So the lookup is a partial map and the test is
  \<open>KEYWORDS ident \<noteq> None\<close>.
\<close>

definition KEYWORDS :: "string \<rightharpoonup> TokenType" where
  "KEYWORDS =
     [''let'' \<mapsto> Let_tok, ''const'' \<mapsto> Const, ''fn'' \<mapsto> Fn,
      ''if'' \<mapsto> If_tok, ''else'' \<mapsto> Else, ''for'' \<mapsto> For]"

subsection \<open>Character classes\<close>

text \<open>
  The three helpers take a string, as in the source; the lexer calls them on the
  one-character string \<^verbatim>\<open>src[0]\<close>.
  \<^verbatim>\<open>isalpha\<close> tests the regular expression \<^verbatim>\<open>/^[A-Za-z_]+$/\<close>.
\<close>

abbreviation charCode :: "char \<Rightarrow> nat" where
  "charCode \<equiv> of_char"

definition isalpha_char :: "char \<Rightarrow> bool" where
  "isalpha_char c \<longleftrightarrow>
     (charCode CHR ''A'' \<le> charCode c \<and> charCode c \<le> charCode CHR ''Z'') \<or>
     (charCode CHR ''a'' \<le> charCode c \<and> charCode c \<le> charCode CHR ''z'') \<or>
     c = CHR ''_''"

definition isalpha :: "string \<Rightarrow> bool" where
  "isalpha s \<longleftrightarrow> s \<noteq> [] \<and> list_all isalpha_char s"

definition isskippable :: "string \<Rightarrow> bool" where
  "isskippable str \<longleftrightarrow>
     str = [CHR '' ''] \<or> str = [CHR 0x0A] \<or> str = [CHR 0x09] \<or> str = [CHR 0x0D]"

text \<open>
  \<^verbatim>\<open>isint\<close> compares \<^verbatim>\<open>str.charCodeAt(0)\<close> with the codes of \<^verbatim>\<open>"0"\<close> and \<^verbatim>\<open>"9"\<close>;
  on the empty string \<^verbatim>\<open>charCodeAt(0)\<close> is \<^verbatim>\<open>NaN\<close> and both comparisons are false.
\<close>

definition isint :: "string \<Rightarrow> bool" where
  "isint str =
     (case str of
        [] \<Rightarrow> False
      | c # _ \<Rightarrow> charCode CHR ''0'' \<le> charCode c \<and> charCode c \<le> charCode CHR ''9'')"

subsection \<open>Failures\<close>

text \<open>
  The lexer's last branch writes three arguments to \<^verbatim>\<open>console.error\<close> and calls
  \<^verbatim>\<open>process.exit(1)\<close>: the process ends there, nothing is returned and nothing is thrown.
  \<open>ProcessExit\<close> records what was written to the error stream and the exit status.
  \<open>Thrown\<close> is an exception that leaves a function; the lexer never throws, the
  collaborators of the entry point may.
\<close>

datatype console_arg = Text string | Num nat

datatype abort = ProcessExit "console_arg list" nat | Thrown string

subsection \<open>The inner loops\<close>

text \<open>
  \<^verbatim>\<open>while (src.length > 0 && isint(src[0])) num += src.shift();\<close>
  Each loop returns the text collected and what is left of \<^verbatim>\<open>src\<close>.
\<close>

fun number_loop :: "string \<Rightarrow> string \<Rightarrow> string \<times> string" where
  "number_loop num [] = (num, [])"
| "number_loop num (c # src) =
     (if isint [c] then number_loop (num @ [c]) src else (num, c # src))"

text \<open>\<^verbatim>\<open>while (src.length > 0 && src[0] !== '"') str += src.shift();\<close>\<close>

fun string_loop :: "string \<Rightarrow> string \<Rightarrow> string \<times> string" where
  "string_loop str [] = (str, [])"
| "string_loop str (c # src) =
     (if c \<noteq> CHR 0x22 then string_loop (str @ [c]) src else (str, c # src))"

text \<open>\<^verbatim>\<open>while (src.length > 0 && isalpha(src[0])) ident += src.shift();\<close>\<close>

fun ident_loop :: "string \<Rightarrow> string \<Rightarrow> string \<times> string" where
  "ident_loop ident [] = (ident, [])"
| "ident_loop ident (c # src) =
     (if isalpha [c] then ident_loop (ident @ [c]) src else (ident, c # src))"

subsection \<open>One iteration of the main loop\<close>

text \<open>The cases of the outer \<^verbatim>\<open>switch\<close>: the one-character tokens, in source order.\<close>

definition single_char :: "char \<Rightarrow> TokenType option" where
  "single_char c =
     (if c = CHR ''('' then Some OpenParen
      else if c = CHR '')'' then Some CloseParen
      else if c = CHR ''{'' then Some OpenBrace
      else if c = CHR ''}'' then Some CloseBrace
      else if c = CHR ''['' then Some OpenBracket
      else if c = CHR '']'' then Some CloseBracket
      else if c = CHR ''+'' \<or> c = CHR ''-'' \<or> c = CHR ''*'' \<or> c = CHR ''%'' \<or> c = CHR ''/''
        then Some BinaryOperator
      else if c = CHR ''<'' then Some Lesser
      else if c = CHR ''>'' then Some Greater
      else if c = CHR ''.'' then Some Dot
      else if c = CHR '';'' then Some Semicolon
      else if c = CHR '':'' then Some Colon
      else if c = CHR '','' then Some Comma
      else if c = CHR ''|'' then Some Bar
      else None)"

text \<open>
  \<^verbatim>\<open>src[0]\<close> after a \<^verbatim>\<open>shift\<close>: \<^verbatim>\<open>undefined\<close> on the empty array, which equals no
  character (also as \<^verbatim>\<open>String(undefined)\<close>, the text \<^verbatim>\<open>"undefined"\<close>).
\<close>

definition peek :: "string \<Rightarrow> char option" where
  "peek src = (case src of [] \<Rightarrow> None | c # _ \<Rightarrow> Some c)"

text \<open>
  The body of \<^verbatim>\<open>while (src.length > 0)\<close> on \<^verbatim>\<open>src = c # rest\<close>: the tokens it pushes
  and the array \<^verbatim>\<open>src\<close> after it, or the end of the process. \<^verbatim>\<open>src.shift()\<close> on the
  empty array changes nothing, as \<^term>\<open>tl\<close> on the empty list.
\<close>

definition scan_one :: "char \<Rightarrow> string \<Rightarrow> abort + (Token list \<times> string)" where
  "scan_one c rest =
     (case single_char c of
        Some t \<Rightarrow> Inr ([token [c] t], rest)
      | None \<Rightarrow>
          if isint [c] then
            (case number_loop [] (c # rest) of
               (num, src') \<Rightarrow> Inr ([token num Number], src'))
          else if c = CHR ''='' then
            (if peek rest = Some CHR ''=''
             then Inr ([token ''=='' EqualsCompare], tl rest)
             else Inr ([token ''='' Equals], rest))
          else if c = CHR ''&'' then
            (if peek rest = Some CHR ''&''
             then Inr ([token ''&&'' And], tl rest)
             else Inr ([token ''&'' Ampersand], rest))
          else if c = CHR ''!'' then
            (if peek rest = Some CHR ''=''
             then Inr ([token ''!='' NotEqualsCompare], tl rest)
             else Inr ([token ''!'' Exclamation], rest))
          else if c = CHR 0x22 then
            (case string_loop [] rest of
               (str, src') \<Rightarrow> Inr ([token str String], tl src'))
          else if isalpha [c] then
            (case ident_loop [] (c # rest) of
               (ident, src') \<Rightarrow>
                 (case KEYWORDS ident of
                    Some reserved \<Rightarrow> Inr ([token ident reserved], src')
                  | None \<Rightarrow> Inr ([token ident Identifier], src')))
          else if isskippable [c] then Inr ([], rest)
          else
            Inl (ProcessExit
                  [Text ''Unreconized character found in source: '', Num (charCode c), Text [c]]
                  1))"

subsection \<open>The main loop and \<^verbatim>\<open>tokenize\<close>\<close>

lemma number_loop_length: "length (snd (number_loop num src)) \<le> length src"
  by (induction src arbitrary: num) (auto intro: le_SucI)

lemma string_loop_length: "length (snd (string_loop str src)) \<le> length src"
  by (induction src arbitrary: str) (auto intro: le_SucI)

lemma ident_loop_length: "length (snd (ident_loop ident src)) \<le> length src"
  by (induction src arbitrary: ident) (auto intro: le_SucI)

lemma scan_one_shorter:
  assumes "scan_one c rest = Inr (pushed, src')"
  shows "length src' \<le> length rest"
proof -
  have n: "isint [c] \<Longrightarrow> length (snd (number_loop [] (c # rest))) \<le> length rest"
    using number_loop_length [of "[c]" rest] by simp
  have i: "isalpha [c] \<Longrightarrow> length (snd (ident_loop [] (c # rest))) \<le> length rest"
    using ident_loop_length [of "[c]" rest] by simp
  have s: "length (tl (snd (string_loop [] rest))) \<le> length rest"
    using string_loop_length [of "[]" rest] by simp
  from assms n i s show ?thesis
    unfolding scan_one_def
    by (auto split: option.splits if_splits prod.splits)
qed

text \<open>
  \<^verbatim>\<open>while (src.length > 0) { ... }\<close> and then the push of the end-of-file token. Every
  iteration shortens \<^verbatim>\<open>src\<close>, so the loop is a total function.
\<close>

function scan :: "string \<Rightarrow> Token list \<Rightarrow> abort + Token list" where
  "scan [] tokens = Inr (tokens @ [\<lparr>value = ''EndOfFile'', type = EOF\<rparr>])"
| "scan (c # rest) tokens =
     (case scan_one c rest of
        Inl a \<Rightarrow> Inl a
      | Inr (pushed, src') \<Rightarrow> scan src' (tokens @ pushed))"
  by pat_completeness auto
termination
proof (relation "measure (\<lambda>(src, tokens). length src)")
  show "wf (measure (\<lambda>(src, tokens). length src))" by simp
next
  fix c rest tokens x pushed src'
  assume "scan_one c rest = Inr x" "(pushed, src') = x"
  then have "length src' \<le> length rest"
    using scan_one_shorter [of c rest pushed src'] by simp
  then show "((src', tokens @ pushed), (c # rest, tokens)) \<in> measure (\<lambda>(src, tokens). length src)"
    by simp
qed

definition tokenize :: "string \<Rightarrow> abort + Token list" where
  "tokenize sourceCode = scan sourceCode []"

section \<open>The entry point of \<^verbatim>\<open>main.ts\<close>\<close>

text \<open>
  \<^verbatim>\<open>String.prototype.includes\<close> and \<^verbatim>\<open>String.prototype.endsWith\<close>.
\<close>

fun string_includes :: "string \<Rightarrow> string \<Rightarrow> bool" where
  "string_includes [] search = (search = [])"
| "string_includes (c # s) search = (take (length search) (c # s) = search \<or> string_includes s search)"

definition endsWith :: "string \<Rightarrow> string \<Rightarrow> bool" where
  "endsWith s search \<longleftrightarrow>
     length search \<le> length s \<and> drop (length s - length search) s = search"

text \<open>
  The functions \<^verbatim>\<open>main.ts\<close> imports are not among the sources; they are parameters of
  the model, each with a result that may be a failure: \<^verbatim>\<open>readFileSync\<close>, \<^verbatim>\<open>transcribe\<close>
  (the text rewriting applied before lexing), the parser behind \<^verbatim>\<open>Parser.produceAST\<close> and
  \<^verbatim>\<open>evaluate\<close>, which may change the environment it is given. The type variables are
  the program tree \<open>'p\<close>, the runtime value \<open>'v\<close> and the environment \<open>'e\<close>.
\<close>

record ('p, 'v, 'e) collaborators =
  readFileSync :: "string \<Rightarrow> abort + string"
  transcribe :: "string \<Rightarrow> abort + string"
  parse :: "Token list \<Rightarrow> abort + 'p"
  evaluate :: "'p \<Rightarrow> 'e \<Rightarrow> abort + ('v \<times> 'e)"

text \<open>
  Modelled from the spec: \<^verbatim>\<open>Parser.produceAST\<close>, of \<^verbatim>\<open>frontend/parser.ts\<close>, which is not
  among the sources. The spec's data flow is text, lexer, tokens, parser, tree: the method
  lexes its argument with \<^verbatim>\<open>tokenize\<close> and parses the token sequence.
\<close>

definition produceAST :: "(Token list \<Rightarrow> abort + 'p) \<Rightarrow> string \<Rightarrow> abort + 'p" where
  "produceAST parser sourceCode =
     (case tokenize sourceCode of
        Inl a \<Rightarrow> Inl a
      | Inr tokens \<Rightarrow> parser tokens)"

text \<open>
  The three calls that \<^verbatim>\<open>run\<close> and \<^verbatim>\<open>repl\<close> share, in their order:
  \<^verbatim>\<open>transcribe\<close>, \<^verbatim>\<open>parser.produceAST\<close>, \<^verbatim>\<open>evaluate\<close>. Neither function catches
  anything, so the first failure is the failure of the caller.
\<close>

definition pipeline ::
  "('p, 'v, 'e) collaborators \<Rightarrow> 'e \<Rightarrow> string \<Rightarrow> abort + ('v \<times> 'e)" where
  "pipeline h env input =
     (case transcribe h input of
        Inl a \<Rightarrow> Inl a
      | Inr input' \<Rightarrow>
          (case produceAST (parse h) input' of
             Inl a \<Rightarrow> Inl a
           | Inr program \<Rightarrow> evaluate h program env))"

text \<open>
  \<^verbatim>\<open>run(filename)\<close>: the value the promise resolves to (\<open>None\<close> for \<^verbatim>\<open>undefined\<close>, after
  the bare \<^verbatim>\<open>return\<close>), or the failure it rejects with. \<open>env\<close> is the result of
  \<^verbatim>\<open>createGlobalEnv()\<close>.
\<close>

definition run :: "('p, 'v, 'e) collaborators \<Rightarrow> 'e \<Rightarrow> string \<Rightarrow> abort + 'v option" where
  "run h env filename =
     (if \<not> endsWith filename ''cbs'' then Inr None
      else
        (case readFileSync h filename of
           Inl a \<Rightarrow> Inl a
         | Inr input \<Rightarrow>
             (case pipeline h env input of
                Inl a \<Rightarrow> Inl a
              | Inr (result, env') \<Rightarrow> Inr (Some result))))"

text \<open>
  \<^verbatim>\<open>repl()\<close> on the lines that \<^verbatim>\<open>rl.question\<close> delivers. The result is what
  \<^verbatim>\<open>console.log\<close> has printed and how the loop ended: \<open>Some a\<close> when the process ended or
  an exception left the loop, \<open>None\<close> when the lines are used up and the loop waits for the
  next one. \<^verbatim>\<open>!input\<close> holds for the empty string only. The prompt is left out.
\<close>

datatype 'v console_line = Banner string | Result 'v

fun repl_loop ::
  "('p, 'v, 'e) collaborators \<Rightarrow> 'e \<Rightarrow> string list \<Rightarrow> 'v console_line list \<Rightarrow>
   'v console_line list \<times> abort option" where
  "repl_loop h env [] out = (out, None)"
| "repl_loop h env (input # lines) out =
     (if input = [] \<or> string_includes input ''exit'' then (out, Some (ProcessExit [] 1))
      else
        (case pipeline h env input of
           Inl a \<Rightarrow> (out, Some a)
         | Inr (result, env') \<Rightarrow> repl_loop h env' lines (out @ [Result result])))"

definition repl ::
  "('p, 'v, 'e) collaborators \<Rightarrow> 'e \<Rightarrow> string list \<Rightarrow> 'v console_line list \<times> abort option" where
  "repl h env lines = repl_loop h env lines [Banner ''Repl v1.0 (Bussin)'']"

text \<open>
  A concrete choice of the collaborators, for the evaluations at concrete inputs: every
  file holds the text \<^verbatim>\<open>1 + 2\<close>, the transcriber changes nothing, the parser returns the
  token sequence as the program, and evaluation returns the program and leaves the
  environment as it is.
\<close>

definition sample_host :: "(Token list, Token list, unit) collaborators" where
  "sample_host =
     \<lparr>readFileSync = (\<lambda>filename. Inr ''1 + 2''),
      transcribe = Inr,
      parse = Inr,
      evaluate = (\<lambda>program env. Inr (program, env))\<rparr>"

section \<open>Notions used by the properties\<close>

text \<open>The end-of-file token that \<^verbatim>\<open>tokenize\<close> pushes last.\<close>

abbreviation eof_token :: Token where
  "eof_token \<equiv> \<lparr>value = ''EndOfFile'', type = EOF\<rparr>"

text \<open>
  A result with \<open>tokens\<close> put in front: a returned sequence is extended, the end of the
  process stays what it is.
\<close>

abbreviation prepend :: "Token list \<Rightarrow> abort + Token list \<Rightarrow> abort + Token list" where
  "prepend tokens r \<equiv> (case r of Inl a \<Rightarrow> Inl a | Inr new \<Rightarrow> Inr (tokens @ new))"

text \<open>
  A character is recognized when one of the branches of the loop body other than the last
  takes it: the one-character tokens, a digit, \<^verbatim>\<open>=\<close>, \<^verbatim>\<open>&\<close>, \<^verbatim>\<open>!\<close>, the double quote, a
  letter or underscore, white space.
\<close>

definition recognized :: "char \<Rightarrow> bool" where
  "recognized c \<longleftrightarrow>
     single_char c \<noteq> None \<or> isint [c] \<or> c = CHR ''='' \<or> c = CHR ''&'' \<or> c = CHR ''!'' \<or>
     c = CHR 0x22 \<or> isalpha [c] \<or> isskippable [c]"

text \<open>What the last branch does with the character \<open>c\<close>.\<close>

definition unrecognized_exit :: "char \<Rightarrow> abort" where
  "unrecognized_exit c =
     ProcessExit [Text ''Unreconized character found in source: '', Num (charCode c), Text [c]] 1"

text \<open>
  The tokens one iteration can push, by the branch that pushes them. Every token of a
  returned sequence but the last is one of these.
\<close>

inductive produced :: "Token \<Rightarrow> bool" where
  by_single: "single_char c = Some t \<Longrightarrow> produced (token [c] t)"
| by_number: "num \<noteq> [] \<Longrightarrow> list_all (\<lambda>c. isint [c]) num \<Longrightarrow> produced (token num Number)"
| by_equals_compare: "produced (token ''=='' EqualsCompare)"
| by_equals: "produced (token ''='' Equals)"
| by_logical_and: "produced (token ''&&'' And)"
| by_ampersand: "produced (token ''&'' Ampersand)"
| by_not_equals: "produced (token ''!='' NotEqualsCompare)"
| by_exclamation: "produced (token ''!'' Exclamation)"
| by_string: "CHR 0x22 \<notin> set str \<Longrightarrow> produced (token str String)"
| by_keyword: "isalpha ident \<Longrightarrow> KEYWORDS ident = Some reserved \<Longrightarrow> produced (token ident reserved)"
| by_identifier: "isalpha ident \<Longrightarrow> KEYWORDS ident = None \<Longrightarrow> produced (token ident Identifier)"

text \<open>
  The texts compared by the round trip. \<open>raw_concat\<close> follows the words of the
  specification: the concatenation of the tokens' raw texts, in order, without the end
  marker. \<open>render\<close> writes a string token between double quotes again and puts one space
  after every token.
\<close>

definition raw_concat :: "Token list \<Rightarrow> string" where
  "raw_concat ts = concat (map value (filter (\<lambda>t. type t \<noteq> EOF) ts))"

definition lexeme :: "Token \<Rightarrow> string" where
  "lexeme t = (if type t = String then CHR 0x22 # value t @ [CHR 0x22] else value t)"

definition render :: "Token list \<Rightarrow> string" where
  "render ts = concat (map (\<lambda>t. lexeme t @ '' '') (filter (\<lambda>t. type t \<noteq> EOF) ts))"

section \<open>Lemmas on the lexer\<close>

subsection \<open>The character classes\<close>

lemma single_char_None: "single_char c = None \<longleftrightarrow> c \<notin> set ''(){}[]+-*%/<>.;:,|''"
  by (simp add: single_char_def)

lemma isint_iff: "isint [c] \<longleftrightarrow> c \<in> set ''0123456789''"
  by (cases c) (simp add: isint_def)

lemma isalpha_char_iff:
  "isalpha_char c \<longleftrightarrow> c \<in> set ''ABCDEFGHIJKLMNOPQRSTUVWXYZabcdefghijklmnopqrstuvwxyz_''"
  by (cases c) (simp add: isalpha_char_def)

lemma isalpha_one: "isalpha [c] = isalpha_char c"
  by (simp add: isalpha_def)

lemma isskippable_iff: "isskippable [c] \<longleftrightarrow> c \<in> {CHR '' '', CHR 0x0A, CHR 0x09, CHR 0x0D}"
  by (auto simp: isskippable_def)

lemma isint_not_single: "isint [c] \<Longrightarrow> single_char c = None"
  unfolding single_char_None isint_iff by auto

lemma isalpha_not_single: "isalpha_char c \<Longrightarrow> single_char c = None"
  unfolding single_char_None isalpha_char_iff by auto

lemma isalpha_not_int: "isalpha_char c \<Longrightarrow> \<not> isint [c]"
  unfolding isalpha_char_iff isint_iff by auto

lemma isalpha_not_special:
  "isalpha_char c \<Longrightarrow> c \<noteq> CHR ''='' \<and> c \<noteq> CHR ''&'' \<and> c \<noteq> CHR ''!'' \<and> c \<noteq> CHR 0x22"
  unfolding isalpha_char_iff by auto

lemma isint_not_special:
  "isint [c] \<Longrightarrow> c \<noteq> CHR ''='' \<and> c \<noteq> CHR ''&'' \<and> c \<noteq> CHR ''!'' \<and> c \<noteq> CHR 0x22"
  unfolding isint_iff by auto

lemma space_class:
  "single_char CHR '' '' = None \<and> \<not> isint '' '' \<and> \<not> isalpha '' '' \<and> isskippable '' ''"
  by (simp add: single_char_None isint_iff isalpha_one isalpha_char_iff isskippable_iff)

lemma number_loop_run:
  "list_all (\<lambda>c. isint [c]) ds \<Longrightarrow> rest = [] \<or> \<not> isint [hd rest] \<Longrightarrow>
   number_loop num (ds @ rest) = (num @ ds, rest)"
proof (induction ds arbitrary: num)
  case Nil
  then show ?case by (cases rest) auto
next
  case (Cons d ds)
  then show ?case by simp
qed

lemma ident_loop_run:
  "list_all isalpha_char cs \<Longrightarrow> rest = [] \<or> \<not> isalpha [hd rest] \<Longrightarrow>
   ident_loop ident (cs @ rest) = (ident @ cs, rest)"
proof (induction cs arbitrary: ident)
  case Nil
  then show ?case by (cases rest) auto
next
  case (Cons d ds)
  then show ?case by (simp add: isalpha_one)
qed

lemma string_loop_closed:
  "CHR 0x22 \<notin> set str \<Longrightarrow>
   string_loop acc (str @ CHR 0x22 # rest) = (acc @ str, CHR 0x22 # rest)"
  by (induction str arbitrary: acc) auto


lemma number_loop_split:
  "number_loop num src = (num', src') \<Longrightarrow>
   \<exists>ds. num' = num @ ds \<and> src = ds @ src' \<and> list_all (\<lambda>c. isint [c]) ds \<and>
        (src' = [] \<or> \<not> isint [hd src'])"
proof (induction src arbitrary: num)
  case Nil
  then show ?case by simp
next
  case (Cons c src)
  show ?case
  proof (cases "isint [c]")
    case True
    with Cons.prems have "number_loop (num @ [c]) src = (num', src')" by simp
    from Cons.IH [OF this] obtain ds where
      "num' = (num @ [c]) @ ds" "src = ds @ src'" "list_all (\<lambda>c. isint [c]) ds"
      "src' = [] \<or> \<not> isint [hd src']" by blast
    with True have "num' = num @ (c # ds) \<and> c # src = (c # ds) @ src' \<and>
      list_all (\<lambda>c. isint [c]) (c # ds) \<and> (src' = [] \<or> \<not> isint [hd src'])" by simp
    then show ?thesis by blast
  next
    case False
    with Cons.prems show ?thesis by auto
  qed
qed

lemma ident_loop_split:
  "ident_loop ident src = (ident', src') \<Longrightarrow>
   \<exists>cs. ident' = ident @ cs \<and> src = cs @ src' \<and> list_all isalpha_char cs \<and>
        (src' = [] \<or> \<not> isalpha [hd src'])"
proof (induction src arbitrary: ident)
  case Nil
  then show ?case by simp
next
  case (Cons c src)
  show ?case
  proof (cases "isalpha [c]")
    case True
    with Cons.prems have "ident_loop (ident @ [c]) src = (ident', src')" by simp
    from Cons.IH [OF this] obtain cs where
      "ident' = (ident @ [c]) @ cs" "src = cs @ src'" "list_all isalpha_char cs"
      "src' = [] \<or> \<not> isalpha [hd src']" by blast
    with True have "ident' = ident @ (c # cs) \<and> c # src = (c # cs) @ src' \<and>
      list_all isalpha_char (c # cs) \<and> (src' = [] \<or> \<not> isalpha [hd src'])"
      by (simp add: isalpha_one)
    then show ?thesis by blast
  next
    case False
    with Cons.prems show ?thesis by auto
  qed
qed

lemma string_loop_split:
  "string_loop str src = (str', src') \<Longrightarrow>
   \<exists>cs. str' = str @ cs \<and> src = cs @ src' \<and> CHR 0x22 \<notin> set cs \<and>
        (src' = [] \<or> hd src' = CHR 0x22)"
proof (induction src arbitrary: str)
  case Nil
  then show ?case by simp
next
  case (Cons c src)
  show ?case
  proof (cases "c = CHR 0x22")
    case False
    with Cons.prems have "string_loop (str @ [c]) src = (str', src')" by simp
    from Cons.IH [OF this] obtain cs where
      "str' = (str @ [c]) @ cs" "src = cs @ src'" "CHR 0x22 \<notin> set cs"
      "src' = [] \<or> hd src' = CHR 0x22" by blast
    with False have "str' = str @ (c # cs) \<and> c # src = (c # cs) @ src' \<and>
      CHR 0x22 \<notin> set (c # cs) \<and> (src' = [] \<or> hd src' = CHR 0x22)"
      by simp
    then show ?thesis by blast
  next
    case True
    with Cons.prems show ?thesis by auto
  qed
qed

subsection \<open>One iteration, branch by branch\<close>

lemma scan_single:
  "single_char c = Some t \<Longrightarrow> scan (c # rest) tokens = scan rest (tokens @ [token [c] t])"
  by (simp add: scan_one_def)

lemma scan_one_number:
  assumes "isint [c]"
  shows "scan_one c rest =
    Inr ([token (fst (number_loop [c] rest)) Number], snd (number_loop [c] rest))"
  using assms isint_not_single [OF assms]
  by (simp add: scan_one_def split: prod.splits)

lemma scan_one_ident:
  assumes "isalpha_char c"
  shows "scan_one c rest =
    Inr ([token (fst (ident_loop [c] rest))
            (case KEYWORDS (fst (ident_loop [c] rest)) of Some reserved \<Rightarrow> reserved
             | None \<Rightarrow> Identifier)],
         snd (ident_loop [c] rest))"
  using assms isalpha_not_single [OF assms] isalpha_not_int [OF assms]
    isalpha_not_special [OF assms]
  by (simp add: scan_one_def isalpha_one split: prod.splits option.splits)

lemma special_class:
  "single_char CHR ''='' = None" "single_char CHR ''&'' = None"
  "single_char CHR ''!'' = None" "single_char CHR 0x22 = None"
  "\<not> isint ''=''" "\<not> isint ''&''" "\<not> isint ''!''" "\<not> isint [CHR 0x22]"
  by (simp_all add: single_char_None isint_iff)

lemma isskippable_class:
  assumes "isskippable [c]"
  shows "single_char c = None" "\<not> isint [c]" "\<not> isalpha_char c"
    "c \<noteq> CHR ''=''" "c \<noteq> CHR ''&''" "c \<noteq> CHR ''!''" "c \<noteq> CHR 0x22"
  using assms unfolding isskippable_iff single_char_None isint_iff isalpha_char_iff
  by auto

lemma scan_one_string:
  "scan_one (CHR 0x22) rest =
    Inr ([token (fst (string_loop [] rest)) String], tl (snd (string_loop [] rest)))"
  by (simp add: scan_one_def special_class split: prod.splits)

lemma scan_one_skip: "isskippable [c] \<Longrightarrow> scan_one c rest = Inr ([], rest)"
  using isskippable_class [of c]
  by (simp add: scan_one_def isalpha_one)

lemma scan_one_equals:
  "scan_one (CHR ''='') rest =
    (if peek rest = Some CHR ''='' then Inr ([token ''=='' EqualsCompare], tl rest)
     else Inr ([token ''='' Equals], rest))"
  by (simp add: scan_one_def special_class)

lemma scan_one_ampersand:
  "scan_one (CHR ''&'') rest =
    (if peek rest = Some CHR ''&'' then Inr ([token ''&&'' And], tl rest)
     else Inr ([token ''&'' Ampersand], rest))"
  by (simp add: scan_one_def special_class)

lemma scan_one_exclamation:
  "scan_one (CHR ''!'') rest =
    (if peek rest = Some CHR ''='' then Inr ([token ''!='' NotEqualsCompare], tl rest)
     else Inr ([token ''!'' Exclamation], rest))"
  by (simp add: scan_one_def special_class)

lemma scan_equals:
  "scan (CHR ''='' # rest) tokens =
    (if peek rest = Some CHR ''='' then scan (tl rest) (tokens @ [token ''=='' EqualsCompare])
     else scan rest (tokens @ [token ''='' Equals]))"
  by (simp add: scan_one_equals)

lemma scan_ampersand:
  "scan (CHR ''&'' # rest) tokens =
    (if peek rest = Some CHR ''&'' then scan (tl rest) (tokens @ [token ''&&'' And])
     else scan rest (tokens @ [token ''&'' Ampersand]))"
  by (simp add: scan_one_ampersand)

lemma scan_exclamation:
  "scan (CHR ''!'' # rest) tokens =
    (if peek rest = Some CHR ''='' then scan (tl rest) (tokens @ [token ''!='' NotEqualsCompare])
     else scan rest (tokens @ [token ''!'' Exclamation]))"
  by (simp add: scan_one_exclamation)

lemma scan_number:
  assumes "num \<noteq> []" "list_all (\<lambda>c. isint [c]) num" "rest = [] \<or> \<not> isint [hd rest]"
  shows "scan (num @ rest) tokens = scan rest (tokens @ [token num Number])"
proof -
  from assms(1) obtain d ds where num: "num = d # ds" by (cases num) auto
  with assms(2) have d: "isint [d]" and ds: "list_all (\<lambda>c. isint [c]) ds" by simp_all
  have "number_loop [d] (ds @ rest) = (num, rest)"
    using number_loop_run [OF ds assms(3), of "[d]"] num by simp
  then show ?thesis
    using scan_one_number [OF d, of "ds @ rest"] num by simp
qed

lemma scan_ident:
  assumes "isalpha ident" "rest = [] \<or> \<not> isalpha [hd rest]"
  shows "scan (ident @ rest) tokens =
    scan rest (tokens @ [token ident
      (case KEYWORDS ident of Some reserved \<Rightarrow> reserved | None \<Rightarrow> Identifier)])"
proof -
  from assms(1) obtain d ds where ident: "ident = d # ds"
    by (cases ident) (auto simp: isalpha_def)
  with assms(1) have d: "isalpha_char d" and ds: "list_all isalpha_char ds"
    by (simp_all add: isalpha_def)
  have "ident_loop [d] (ds @ rest) = (ident, rest)"
    using ident_loop_run [OF ds assms(2), of "[d]"] ident by simp
  then show ?thesis
    using scan_one_ident [OF d, of "ds @ rest"] ident by simp
qed

lemma scan_string_closed:
  assumes "CHR 0x22 \<notin> set str"
  shows "scan (CHR 0x22 # str @ CHR 0x22 # rest) tokens = scan rest (tokens @ [token str String])"
  using string_loop_closed [OF assms, of "[]" rest]
  by (simp add: scan_one_string)


lemma scan_skip: "isskippable [c] \<Longrightarrow> scan (c # rest) tokens = scan rest tokens"
  by (simp add: scan_one_skip)

lemma scan_space: "scan (CHR '' '' # rest) tokens = scan rest tokens"
  by (rule scan_skip) (simp add: isskippable_def)

declare scan.simps(2) [simp del]

lemma peek_Cons: "peek (c # rest) = Some c"
  by (simp add: peek_def)

subsection \<open>What the loop returns\<close>

lemma scan_one_cases:
  "(\<exists>t. single_char c = Some t) \<or> isint [c] \<or> c = CHR ''='' \<or> c = CHR ''&'' \<or> c = CHR ''!'' \<or>
   c = CHR 0x22 \<or> isalpha_char c \<or> isskippable [c] \<or> \<not> recognized c"
  by (auto simp: recognized_def isalpha_one)

lemma scan_one_unrecognized:
  "\<not> recognized c \<Longrightarrow> scan_one c rest = Inl (unrecognized_exit c)"
  by (simp add: recognized_def scan_one_def unrecognized_exit_def)

lemma scan_one_recognized:
  assumes "recognized c"
  shows "\<exists>pushed src'. scan_one c rest = Inr (pushed, src')"
  using scan_one_cases [of c]
proof (elim disjE exE)
  fix t assume "single_char c = Some t"
  then show ?thesis by (simp add: scan_one_def)
next
  assume "isint [c]" then show ?thesis by (simp add: scan_one_number)
next
  assume "c = CHR ''=''" then show ?thesis by (simp add: scan_one_equals)
next
  assume "c = CHR ''&''" then show ?thesis by (simp add: scan_one_ampersand)
next
  assume "c = CHR ''!''" then show ?thesis by (simp add: scan_one_exclamation)
next
  assume "c = CHR 0x22" then show ?thesis by (simp add: scan_one_string)
next
  assume "isalpha_char c" then show ?thesis by (simp add: scan_one_ident)
next
  assume "isskippable [c]" then show ?thesis by (simp add: scan_one_skip)
next
  assume "\<not> recognized c" with assms show ?thesis by simp
qed

lemma scan_one_abort:
  assumes "scan_one c rest = Inl a"
  shows "\<not> recognized c \<and> a = unrecognized_exit c"
proof (cases "recognized c")
  case True
  from scan_one_recognized [OF this, of rest] assms show ?thesis by auto
next
  case False
  with assms show ?thesis by (simp add: scan_one_unrecognized)
qed

lemma set_tl_subset: "set (tl xs) \<subseteq> set xs"
  by (cases xs) auto

lemma scan_one_result:
  assumes "scan_one c rest = Inr (pushed, src')"
  shows "set src' \<subseteq> set rest \<and> (\<forall>t\<in>set pushed. produced t)"
  using scan_one_cases [of c]
proof (elim disjE exE)
  fix t assume "single_char c = Some t"
  with assms show ?thesis by (auto simp: scan_one_def intro: produced.by_single)
next
  assume c: "isint [c]"
  obtain num s where nl: "number_loop [c] rest = (num, s)" by force
  from number_loop_split [OF nl] obtain ds where
    "num = [c] @ ds" "rest = ds @ s" "list_all (\<lambda>c. isint [c]) ds" by blast
  with c have "produced (token num Number)" "set s \<subseteq> set rest"
    by (auto intro: produced.by_number)
  with assms nl show ?thesis by (auto simp: scan_one_number [OF c])
next
  assume "c = CHR ''=''"
  with assms set_tl_subset [of rest] show ?thesis
    by (auto simp: scan_one_equals split: if_splits
        intro: produced.by_equals produced.by_equals_compare)
next
  assume "c = CHR ''&''"
  with assms set_tl_subset [of rest] show ?thesis
    by (auto simp: scan_one_ampersand split: if_splits
        intro: produced.by_ampersand produced.by_logical_and)
next
  assume "c = CHR ''!''"
  with assms set_tl_subset [of rest] show ?thesis
    by (auto simp: scan_one_exclamation split: if_splits
        intro: produced.by_exclamation produced.by_not_equals)
next
  assume c: "c = CHR 0x22"
  obtain str s where sl: "string_loop [] rest = (str, s)" by force
  from string_loop_split [OF sl] obtain cs where
    "str = [] @ cs" "rest = cs @ s" "CHR 0x22 \<notin> set cs" by blast
  with set_tl_subset [of s] have "produced (token str String)" "set (tl s) \<subseteq> set rest"
    by (auto intro: produced.by_string)
  with assms sl c show ?thesis by (auto simp: scan_one_string)
next
  assume c: "isalpha_char c"
  obtain ident s where il: "ident_loop [c] rest = (ident, s)" by force
  from ident_loop_split [OF il] obtain cs where
    "ident = [c] @ cs" "rest = cs @ s" "list_all isalpha_char cs" by blast
  with c have a: "isalpha ident" and s: "set s \<subseteq> set rest"
    by (auto simp: isalpha_def)
  have "produced (token ident (case KEYWORDS ident of Some reserved \<Rightarrow> reserved
      | None \<Rightarrow> Identifier))"
    using a by (auto split: option.splits intro: produced.by_keyword produced.by_identifier)
  with assms il s show ?thesis by (auto simp: scan_one_ident [OF c])
next
  assume "isskippable [c]"
  with assms show ?thesis by (simp add: scan_one_skip)
next
  assume "\<not> recognized c"
  with assms show ?thesis by (simp add: scan_one_unrecognized)
qed

lemma scan_returns:
  "scan src tokens = Inr out \<Longrightarrow>
   \<exists>new. out = tokens @ new @ [eof_token] \<and> (\<forall>t\<in>set new. produced t)"
proof (induction src tokens rule: scan.induct)
  case (1 tokens)
  then have "out = tokens @ [] @ [eof_token] \<and> (\<forall>t\<in>set []. produced t)" by auto
  then show ?case by blast
next
  case (2 c rest tokens)
  from "2.prems" obtain pushed src' where
    one: "scan_one c rest = Inr (pushed, src')" and
    more: "scan src' (tokens @ pushed) = Inr out"
    by (auto simp: scan.simps(2) split: sum.splits)
  from "2.IH" [OF one refl more] obtain new where
    new: "out = (tokens @ pushed) @ new @ [eof_token]" "\<forall>t\<in>set new. produced t" by blast
  with scan_one_result [OF one]
  have "out = tokens @ (pushed @ new) @ [eof_token] \<and> (\<forall>t\<in>set (pushed @ new). produced t)"
    by auto
  then show ?case by blast
qed

lemma scan_aborts:
  "scan src tokens = Inl a \<Longrightarrow> \<exists>c\<in>set src. \<not> recognized c \<and> a = unrecognized_exit c"
proof (induction src tokens rule: scan.induct)
  case (1 tokens)
  then show ?case by simp
next
  case (2 c rest tokens)
  show ?case
  proof (cases "scan_one c rest")
    case (Inl b)
    with "2.prems" have "b = a" by (simp add: scan.simps(2))
    with scan_one_abort [OF Inl] show ?thesis by auto
  next
    case (Inr x)
    obtain pushed src' where x: "x = (pushed, src')" by (cases x)
    with Inr "2.prems" have more: "scan src' (tokens @ pushed) = Inl a"
      by (simp add: scan.simps(2))
    from "2.IH" [OF Inr x [symmetric] more] obtain d where
      "d \<in> set src'" "\<not> recognized d \<and> a = unrecognized_exit d" by blast
    with scan_one_result [of c rest pushed src'] Inr x show ?thesis by auto
  qed
qed

lemma scan_recognized:
  "list_all recognized src \<Longrightarrow> \<exists>out. scan src tokens = Inr out"
proof (cases "scan src tokens")
  case (Inl a)
  assume "list_all recognized src"
  with scan_aborts [OF Inl] show ?thesis by (auto simp: list_all_iff)
next
  case (Inr out)
  then show ?thesis by blast
qed

lemma produced_not_EOF: "produced t \<Longrightarrow> type t \<noteq> EOF"
  by (induction rule: produced.induct)
     (auto simp: token_def single_char_def KEYWORDS_def split: if_splits)

subsection \<open>Lexing a rendered token sequence\<close>

lemma single_char_not_String: "single_char c = Some t \<Longrightarrow> t \<noteq> String"
  by (auto simp: single_char_def split: if_splits)

lemma KEYWORDS_not_String: "KEYWORDS ident = Some t \<Longrightarrow> t \<noteq> String"
  by (auto simp: KEYWORDS_def split: if_splits)

lemma rescan:
  assumes "produced t"
  shows "scan (lexeme t @ CHR '' '' # rest) tokens = scan rest (tokens @ [t])"
  using assms
proof (cases rule: produced.cases)
  case (by_single c ty)
  with single_char_not_String [of c ty] show ?thesis
    by (simp add: lexeme_def token_def scan_single scan_space)
next
  case (by_number num)
  then show ?thesis
    using scan_number [of num "CHR '' '' # rest" tokens] space_class
    by (simp add: lexeme_def token_def scan_space)
next
  case by_equals_compare
  then show ?thesis
    by (simp add: lexeme_def token_def scan_equals peek_Cons scan_space)
next
  case by_equals
  then show ?thesis
    by (simp add: lexeme_def token_def scan_equals peek_Cons scan_space)
next
  case by_logical_and
  then show ?thesis
    by (simp add: lexeme_def token_def scan_ampersand peek_Cons scan_space)
next
  case by_ampersand
  then show ?thesis
    by (simp add: lexeme_def token_def scan_ampersand peek_Cons scan_space)
next
  case by_not_equals
  then show ?thesis
    by (simp add: lexeme_def token_def scan_exclamation peek_Cons scan_space)
next
  case by_exclamation
  then show ?thesis
    by (simp add: lexeme_def token_def scan_exclamation peek_Cons scan_space)
next
  case (by_string str)
  then show ?thesis
    using scan_string_closed [of str "CHR '' '' # rest" tokens]
    by (simp add: lexeme_def token_def scan_space)
next
  case (by_keyword ident reserved)
  then show ?thesis
    using scan_ident [of ident "CHR '' '' # rest" tokens] space_class
      KEYWORDS_not_String [of ident reserved]
    by (simp add: lexeme_def token_def scan_space)
next
  case (by_identifier ident)
  then show ?thesis
    using scan_ident [of ident "CHR '' '' # rest" tokens] space_class
    by (simp add: lexeme_def token_def scan_space)
qed

lemma rescan_all:
  "\<forall>t\<in>set new. produced t \<Longrightarrow>
   scan (concat (map (\<lambda>t. lexeme t @ '' '') new) @ rest) tokens = scan rest (tokens @ new)"
proof (induction new arbitrary: tokens)
  case Nil
  then show ?case by simp
next
  case (Cons t new)
  then have "produced t" and rest: "\<forall>t\<in>set new. produced t" by simp_all
  from rescan [OF \<open>produced t\<close>] Cons.IH [OF rest] show ?case by simp
qed

lemma render_produced:
  assumes "\<forall>t\<in>set new. produced t"
  shows "render (new @ [eof_token]) = concat (map (\<lambda>t. lexeme t @ '' '') new)"
proof -
  from assms have "filter (\<lambda>t. type t \<noteq> EOF) new = new"
    by (auto simp: filter_id_conv dest: produced_not_EOF)
  then show ?thesis by (simp add: render_def)
qed

subsection \<open>The tokens pushed before do not matter\<close>

lemma scan_tokens: "scan src tokens = prepend tokens (scan src [])"
proof (induction "length src" arbitrary: src tokens rule: less_induct)
  case less
  show ?case
  proof (cases src)
    case Nil
    then show ?thesis by simp
  next
    case (Cons c rest)
    show ?thesis
    proof (cases "scan_one c rest")
      case (Inl a)
      with Cons show ?thesis by (simp add: scan.simps(2))
    next
      case (Inr x)
      obtain pushed src' where x: "x = (pushed, src')" by (cases x)
      from Inr x scan_one_shorter [of c rest pushed src'] Cons
      have shorter: "length src' < length src" by simp
      have here: "scan src tokens = scan src' (tokens @ pushed)"
        and start: "scan src [] = scan src' pushed"
        using Cons Inr x by (simp_all add: scan.simps(2))
      from less [OF shorter, of "tokens @ pushed"] less [OF shorter, of pushed] here start
      show ?thesis by (simp split: sum.splits)
    qed
  qed
qed

lemma scan_then: "scan rest (tokens @ [tok]) = prepend (tokens @ [tok]) (tokenize rest)"
  unfolding tokenize_def by (rule scan_tokens)

lemma tokenize_then:
  assumes "\<And>tokens. scan src tokens = scan rest (tokens @ [tok])"
  shows "tokenize src = prepend [tok] (tokenize rest)"
  using assms [of "[]"] scan_then [of rest "[]" tok]
  by (simp add: tokenize_def split: sum.splits)

subsection \<open>The tokens of a returned sequence\<close>

lemma produced_Number:
  "produced t \<Longrightarrow> type t = Number \<Longrightarrow> value t \<noteq> [] \<and> list_all (\<lambda>c. isint [c]) (value t)"
  by (induction rule: produced.induct)
     (auto simp: token_def single_char_def KEYWORDS_def split: if_splits)

lemma produced_String: "produced t \<Longrightarrow> type t = String \<Longrightarrow> CHR 0x22 \<notin> set (value t)"
  by (induction rule: produced.induct)
     (auto simp: token_def dest: single_char_not_String KEYWORDS_not_String)

lemma tokenize_returns:
  assumes "tokenize sourceCode = Inr out"
  obtains new where "out = new @ [eof_token]" "\<forall>t\<in>set new. produced t"
  using assms scan_returns [of sourceCode "[]" out] by (auto simp: tokenize_def)

section \<open>Lemmas on the entry point\<close>

lemma string_includes_iff:
  "string_includes s search \<longleftrightarrow> (\<exists>before after. s = before @ search @ after)"
proof (induction s)
  case Nil
  then show ?case by auto
next
  case (Cons c s)
  have "take (length search) (c # s) = search \<longleftrightarrow> (\<exists>after. c # s = search @ after)"
  proof
    assume "take (length search) (c # s) = search"
    then have "c # s = search @ drop (length search) (c # s)"
      by (metis append_take_drop_id)
    then show "\<exists>after. c # s = search @ after" ..
  next
    assume "\<exists>after. c # s = search @ after"
    then show "take (length search) (c # s) = search" by auto
  qed
  moreover have "(\<exists>before after. c # s = before @ search @ after) \<longleftrightarrow>
    (\<exists>after. c # s = search @ after) \<or> (\<exists>before after. s = before @ search @ after)"
  proof
    assume "\<exists>before after. c # s = before @ search @ after"
    then obtain before after where eq: "c # s = before @ search @ after" by blast
    show "(\<exists>after. c # s = search @ after) \<or> (\<exists>before after. s = before @ search @ after)"
    proof (cases before)
      case Nil
      with eq show ?thesis by auto
    next
      case (Cons b before')
      with eq have "s = before' @ search @ after" by simp
      then show ?thesis by blast
    qed
  next
    assume "(\<exists>after. c # s = search @ after) \<or> (\<exists>before after. s = before @ search @ after)"
    then show "\<exists>before after. c # s = before @ search @ after"
    proof
      assume "\<exists>after. c # s = search @ after"
      then obtain after where "c # s = [] @ search @ after" by auto
      then show ?thesis by blast
    next
      assume "\<exists>before after. s = before @ search @ after"
      then obtain before after where "c # s = (c # before) @ search @ after" by auto
      then show ?thesis by blast
    qed
  qed
  ultimately show ?case using Cons.IH by simp
qed

lemma endsWith_iff: "endsWith s search \<longleftrightarrow> (\<exists>before. s = before @ search)"
proof
  assume "endsWith s search"
  then have "s = take (length s - length search) s @ search"
    by (metis append_take_drop_id endsWith_def)
  then show "\<exists>before. s = before @ search" ..
next
  assume "\<exists>before. s = before @ search"
  then show "endsWith s search" by (auto simp: endsWith_def)
qed

text \<open>What \<^verbatim>\<open>run\<close> does, by the suffix of the file name.\<close>

lemma run_by_suffix:
  "(\<not> (\<exists>before. filename = before @ ''cbs'') \<longrightarrow> run h env filename = Inr None) \<and>
   ((\<exists>before. filename = before @ ''cbs'') \<and> readFileSync h filename = Inl a \<longrightarrow>
      run h env filename = Inl a) \<and>
   ((\<exists>before. filename = before @ ''cbs'') \<and> readFileSync h filename = Inr input \<and>
    pipeline h env input = Inl a \<longrightarrow>
      run h env filename = Inl a) \<and>
   ((\<exists>before. filename = before @ ''cbs'') \<and> readFileSync h filename = Inr input \<and>
    pipeline h env input = Inr (result, env') \<longrightarrow>
      run h env filename = Inr (Some result))"
  unfolding endsWith_iff [symmetric] by (simp add: run_def)

section \<open>Evaluation at concrete inputs\<close>

text \<open>The definitions that the simplifier unfolds to run the lexer on a concrete text.\<close>

lemmas eval_defs = tokenize_def scan.simps(2) scan_one_def single_char_def isint_def
  isalpha_def isalpha_char_def isskippable_def KEYWORDS_def peek_def token_def

section \<open>The properties\<close>

text \<open>
  In the statements below \<open>scan src tokens\<close> is the loop of \<^verbatim>\<open>tokenize\<close> in the state
  where \<open>tokens\<close> have been pushed and \<open>src\<close> is still to be read;
  \<open>tokenize sourceCode\<close> is \<open>scan sourceCode []\<close>.
\<close>

subsection \<open>C1\<close>

text \<open>
  C1. For every source text made of recognized characters only, \<^verbatim>\<open>tokenize\<close> returns a
  token sequence (the loop is a total function, so it ends on every text; on these texts it
  ends by returning). The last element of the sequence is the end-of-file token, and
  exactly one token of the sequence has the kind \<open>EOF\<close>.
\<close>

theorem tokenize_ends_with_one_eof:
  assumes "list_all recognized sourceCode"
  shows "\<exists>out. tokenize sourceCode = Inr out \<and> out \<noteq> [] \<and> last out = eof_token \<and>
           length (filter (\<lambda>t. type t = EOF) out) = 1"
proof -
  from scan_recognized [OF assms, of "[]"] obtain out where out: "tokenize sourceCode = Inr out"
    by (auto simp: tokenize_def)
  then obtain new where new: "out = new @ [eof_token]" "\<forall>t\<in>set new. produced t"
    by (rule tokenize_returns)
  from new(2) have "filter (\<lambda>t. type t = EOF) new = []"
    by (auto simp: filter_empty_conv dest: produced_not_EOF)
  with new(1) have "out \<noteq> [] \<and> last out = eof_token \<and> length (filter (\<lambda>t. type t = EOF) out) = 1"
    by simp
  with out show ?thesis by blast
qed

text \<open>C1 on the text \<^verbatim>\<open>let x = 5;\<close>.\<close>

theorem tokenize_ends_with_one_eof_witness:
  "list_all recognized ''let x = 5;'' \<and>
   (\<exists>out. tokenize ''let x = 5;'' = Inr out \<and> out \<noteq> [] \<and> last out = eof_token \<and>
      length (filter (\<lambda>t. type t = EOF) out) = 1)"
proof -
  have h: "list_all recognized ''let x = 5;''"
    by (simp add: recognized_def single_char_def isint_def isalpha_def isalpha_char_def
        isskippable_def)
  from h tokenize_ends_with_one_eof [OF h] show ?thesis by blast
qed

subsection \<open>C2\<close>

text \<open>
  C2, as stated, fails. A string token holds the text between the quotes, so the
  concatenation of the raw texts loses the quotes: \<^verbatim>\<open>"hi"\<close> gives one string token,
  its raw text \<^verbatim>\<open>hi\<close> lexes as an identifier. White space between tokens is dropped as
  well: \<^verbatim>\<open>a b\<close> gives two identifiers, the concatenation \<^verbatim>\<open>ab\<close> gives one.
\<close>

theorem raw_concat_changes_kinds:
  "tokenize [CHR 0x22, CHR ''h'', CHR ''i'', CHR 0x22] = Inr [token ''hi'' String, eof_token] \<and>
   raw_concat [token ''hi'' String, eof_token] = ''hi'' \<and>
   tokenize ''hi'' = Inr [token ''hi'' Identifier, eof_token] \<and>
   tokenize ''a b'' = Inr [token ''a'' Identifier, token ''b'' Identifier, eof_token] \<and>
   raw_concat [token ''a'' Identifier, token ''b'' Identifier, eof_token] = ''ab'' \<and>
   tokenize ''ab'' = Inr [token ''ab'' Identifier, eof_token] \<and>
   map type [token ''hi'' Identifier, eof_token] \<noteq> map type [token ''hi'' String, eof_token] \<and>
   map type [token ''ab'' Identifier, eof_token] \<noteq>
     map type [token ''a'' Identifier, token ''b'' Identifier, eof_token]"
  by (simp add: eval_defs raw_concat_def)

text \<open>
  C2, amended. For every source text that \<^verbatim>\<open>tokenize\<close> accepts, lexing the text that
  writes the tokens in order, without the end marker, every string token between double
  quotes again and one space after every token, returns the very same token sequence:
  the same kinds and the same texts.
\<close>

theorem render_round_trip:
  assumes "tokenize sourceCode = Inr tokens"
  shows "tokenize (render tokens) = Inr tokens"
proof -
  from assms obtain new where
    new: "tokens = new @ [eof_token]" "\<forall>t\<in>set new. produced t"
    by (rule tokenize_returns)
  have "scan (render tokens) [] = scan [] new"
    using rescan_all [OF new(2), of "[]" "[]"] render_produced [OF new(2)] new(1) by simp
  with new(1) show ?thesis by (simp add: tokenize_def)
qed

text \<open>C2, amended, on a text with a string, an operator, an identifier and a number.\<close>

theorem render_round_trip_witness:
  "tokenize (CHR 0x22 # ''a b'' @ CHR 0x22 # ''==x1'') =
     Inr [token ''a b'' String, token ''=='' EqualsCompare, token ''x'' Identifier,
          token ''1'' Number, eof_token] \<and>
   render [token ''a b'' String, token ''=='' EqualsCompare, token ''x'' Identifier,
          token ''1'' Number, eof_token] = CHR 0x22 # ''a b'' @ CHR 0x22 # '' == x 1 '' \<and>
   tokenize (CHR 0x22 # ''a b'' @ CHR 0x22 # '' == x 1 '') =
     Inr [token ''a b'' String, token ''=='' EqualsCompare, token ''x'' Identifier,
          token ''1'' Number, eof_token]"
proof -
  have t: "tokenize (CHR 0x22 # ''a b'' @ CHR 0x22 # ''==x1'') =
     Inr [token ''a b'' String, token ''=='' EqualsCompare, token ''x'' Identifier,
          token ''1'' Number, eof_token]"
    by (simp add: eval_defs)
  have r: "render [token ''a b'' String, token ''=='' EqualsCompare, token ''x'' Identifier,
          token ''1'' Number, eof_token] = CHR 0x22 # ''a b'' @ CHR 0x22 # '' == x 1 ''"
    by (simp add: render_def lexeme_def token_def)
  from render_round_trip [OF t] t r show ?thesis by simp
qed

subsection \<open>C3\<close>

text \<open>
  C3, as stated, fails: on a character outside every class the lexer returns no error
  value. It writes the diagnostic to the error stream and calls \<^verbatim>\<open>process.exit(1)\<close>, so
  the process ends inside \<^verbatim>\<open>tokenize\<close>; the token of \<^verbatim>\<open>a\<close>, already pushed, is lost
  with it.
\<close>

theorem unrecognized_character_exits_process:
  "tokenize ''a#'' =
     Inl (ProcessExit [Text ''Unreconized character found in source: '', Num 35, Text ''#''] 1)"
  by (simp add: eval_defs)

text \<open>
  C3, amended. When the loop is at a character outside every recognized class, whatever
  follows it and whatever tokens were pushed before, the lexer writes the diagnostic with
  the character's code and the character itself to the error stream and ends the process
  with status 1: no token sequence is returned. And \<^verbatim>\<open>tokenize\<close> ends in no other way
  than by returning or by this exit, for an unrecognized character of the source text.
\<close>

theorem unrecognized_character_aborts:
  "(\<not> recognized c \<longrightarrow> scan (c # rest) tokens = Inl (unrecognized_exit c)) \<and>
   (tokenize sourceCode = Inl a \<longrightarrow>
      (\<exists>c\<in>set sourceCode. \<not> recognized c \<and> a = unrecognized_exit c))"
proof (intro conjI impI)
  assume "\<not> recognized c"
  then show "scan (c # rest) tokens = Inl (unrecognized_exit c)"
    by (simp add: scan.simps(2) scan_one_unrecognized)
next
  assume "tokenize sourceCode = Inl a"
  then show "\<exists>c\<in>set sourceCode. \<not> recognized c \<and> a = unrecognized_exit c"
    using scan_aborts [of sourceCode "[]" a] by (simp add: tokenize_def)
qed

text \<open>C3, amended, at the character \<^verbatim>\<open>#\<close> (code 35) after one token.\<close>

theorem unrecognized_character_aborts_witness:
  "\<not> recognized CHR ''#'' \<and>
   scan ''#b'' [token ''a'' Identifier] = Inl (unrecognized_exit CHR ''#'') \<and>
   tokenize ''a#b'' = Inl (unrecognized_exit CHR ''#'') \<and>
   unrecognized_exit CHR ''#'' =
     ProcessExit [Text ''Unreconized character found in source: '', Num 35, Text ''#''] 1"
proof -
  have h: "\<not> recognized CHR ''#''"
    by (simp add: recognized_def single_char_def isint_def isalpha_def isalpha_char_def
        isskippable_def)
  have t: "tokenize ''a#b'' = Inl (unrecognized_exit CHR ''#'')"
    by (simp add: eval_defs unrecognized_exit_def)
  from unrecognized_character_aborts [of "CHR ''#''" "''b''" "[token ''a'' Identifier]"
      "''a#b''" "unrecognized_exit CHR ''#''"] h t
  show ?thesis by (simp add: unrecognized_exit_def)
qed

subsection \<open>C4\<close>

text \<open>
  C4. Two-character operators are resolved by one character of lookahead. For every text
  \<open>rest\<close>: \<^verbatim>\<open>=\<close> followed by \<^verbatim>\<open>=\<close> gives one \<open>EqualsCompare\<close> token with the text
  \<^verbatim>\<open>==\<close>, and \<^verbatim>\<open>=\<close> followed by anything else, or by nothing, gives an \<open>Equals\<close>
  token; likewise \<^verbatim>\<open>&&\<close> and \<^verbatim>\<open>&\<close>, \<^verbatim>\<open>!=\<close> and \<^verbatim>\<open>!\<close>; and \<^verbatim>\<open>>\<close> and
  \<^verbatim>\<open><\<close> give one-character tokens whatever follows them. In each case the token is the
  first of what \<^verbatim>\<open>tokenize\<close> returns for the text that starts with the operator, followed
  by the tokens of \<open>rest\<close>; and at every state of the loop it comes right after the tokens
  pushed before.
\<close>

theorem two_character_operators:
  "tokenize (CHR ''='' # CHR ''='' # rest) =
     prepend [\<lparr>value = ''=='', type = EqualsCompare\<rparr>] (tokenize rest) \<and>
   scan (CHR ''='' # CHR ''='' # rest) tokens =
     prepend (tokens @ [\<lparr>value = ''=='', type = EqualsCompare\<rparr>]) (tokenize rest) \<and>
   (rest = [] \<or> hd rest \<noteq> CHR ''='' \<longrightarrow>
      tokenize (CHR ''='' # rest) = prepend [\<lparr>value = ''='', type = Equals\<rparr>] (tokenize rest) \<and>
      scan (CHR ''='' # rest) tokens =
        prepend (tokens @ [\<lparr>value = ''='', type = Equals\<rparr>]) (tokenize rest)) \<and>
   tokenize (CHR ''&'' # CHR ''&'' # rest) =
     prepend [\<lparr>value = ''&&'', type = And\<rparr>] (tokenize rest) \<and>
   scan (CHR ''&'' # CHR ''&'' # rest) tokens =
     prepend (tokens @ [\<lparr>value = ''&&'', type = And\<rparr>]) (tokenize rest) \<and>
   (rest = [] \<or> hd rest \<noteq> CHR ''&'' \<longrightarrow>
      tokenize (CHR ''&'' # rest) = prepend [\<lparr>value = ''&'', type = Ampersand\<rparr>] (tokenize rest) \<and>
      scan (CHR ''&'' # rest) tokens =
        prepend (tokens @ [\<lparr>value = ''&'', type = Ampersand\<rparr>]) (tokenize rest)) \<and>
   tokenize (CHR ''!'' # CHR ''='' # rest) =
     prepend [\<lparr>value = ''!='', type = NotEqualsCompare\<rparr>] (tokenize rest) \<and>
   scan (CHR ''!'' # CHR ''='' # rest) tokens =
     prepend (tokens @ [\<lparr>value = ''!='', type = NotEqualsCompare\<rparr>]) (tokenize rest) \<and>
   (rest = [] \<or> hd rest \<noteq> CHR ''='' \<longrightarrow>
      tokenize (CHR ''!'' # rest) = prepend [\<lparr>value = ''!'', type = Exclamation\<rparr>] (tokenize rest) \<and>
      scan (CHR ''!'' # rest) tokens =
        prepend (tokens @ [\<lparr>value = ''!'', type = Exclamation\<rparr>]) (tokenize rest)) \<and>
   tokenize (CHR ''>'' # rest) = prepend [\<lparr>value = ''>'', type = Greater\<rparr>] (tokenize rest) \<and>
   scan (CHR ''>'' # rest) tokens =
     prepend (tokens @ [\<lparr>value = ''>'', type = Greater\<rparr>]) (tokenize rest) \<and>
   tokenize (CHR ''<'' # rest) = prepend [\<lparr>value = ''<'', type = Lesser\<rparr>] (tokenize rest) \<and>
   scan (CHR ''<'' # rest) tokens =
     prepend (tokens @ [\<lparr>value = ''<'', type = Lesser\<rparr>]) (tokenize rest)"
proof -
  have other: "peek rest \<noteq> Some d" if "rest = [] \<or> hd rest \<noteq> d" for d
    using that by (cases rest) (auto simp: peek_def)
  have gt: "single_char CHR ''>'' = Some Greater" and lt: "single_char CHR ''<'' = Some Lesser"
    by (simp_all add: single_char_def)
  have step:
    "scan (CHR ''='' # CHR ''='' # rest) ts = scan rest (ts @ [\<lparr>value = ''=='', type = EqualsCompare\<rparr>])"
    "rest = [] \<or> hd rest \<noteq> CHR ''='' \<Longrightarrow>
       scan (CHR ''='' # rest) ts = scan rest (ts @ [\<lparr>value = ''='', type = Equals\<rparr>])"
    "scan (CHR ''&'' # CHR ''&'' # rest) ts = scan rest (ts @ [\<lparr>value = ''&&'', type = And\<rparr>])"
    "rest = [] \<or> hd rest \<noteq> CHR ''&'' \<Longrightarrow>
       scan (CHR ''&'' # rest) ts = scan rest (ts @ [\<lparr>value = ''&'', type = Ampersand\<rparr>])"
    "scan (CHR ''!'' # CHR ''='' # rest) ts =
       scan rest (ts @ [\<lparr>value = ''!='', type = NotEqualsCompare\<rparr>])"
    "rest = [] \<or> hd rest \<noteq> CHR ''='' \<Longrightarrow>
       scan (CHR ''!'' # rest) ts = scan rest (ts @ [\<lparr>value = ''!'', type = Exclamation\<rparr>])"
    "scan (CHR ''>'' # rest) ts = scan rest (ts @ [\<lparr>value = ''>'', type = Greater\<rparr>])"
    "scan (CHR ''<'' # rest) ts = scan rest (ts @ [\<lparr>value = ''<'', type = Lesser\<rparr>])"
    for ts
    using scan_single [OF gt, of rest ts] scan_single [OF lt, of rest ts]
    by (simp_all add: scan_equals scan_ampersand scan_exclamation peek_Cons other token_def)
  show ?thesis
    by (intro conjI impI tokenize_then; (simp only: step scan_then)?)
qed

text \<open>C4 before the text \<^verbatim>\<open>1\<close>, after one token, and \<^verbatim>\<open>>=\<close> lexed as two tokens.\<close>

theorem two_character_operators_witness:
  "tokenize ''==1'' = Inr [token ''=='' EqualsCompare, token ''1'' Number, eof_token] \<and>
   tokenize ''=1'' = Inr [token ''='' Equals, token ''1'' Number, eof_token] \<and>
   tokenize ''&&1'' = Inr [token ''&&'' And, token ''1'' Number, eof_token] \<and>
   tokenize ''&1'' = Inr [token ''&'' Ampersand, token ''1'' Number, eof_token] \<and>
   tokenize ''!=1'' = Inr [token ''!='' NotEqualsCompare, token ''1'' Number, eof_token] \<and>
   tokenize ''!1'' = Inr [token ''!'' Exclamation, token ''1'' Number, eof_token] \<and>
   tokenize ''>1'' = Inr [token ''>'' Greater, token ''1'' Number, eof_token] \<and>
   tokenize ''<1'' = Inr [token ''<'' Lesser, token ''1'' Number, eof_token] \<and>
   scan ''==1'' [token ''a'' Identifier] =
     Inr [token ''a'' Identifier, token ''=='' EqualsCompare, token ''1'' Number, eof_token] \<and>
   tokenize ''a>=b'' =
     Inr [token ''a'' Identifier, token ''>'' Greater, token ''='' Equals,
          token ''b'' Identifier, eof_token]"
proof -
  have one: "tokenize ''1'' = Inr [token ''1'' Number, eof_token]"
    by (simp add: eval_defs)
  have t: "tokenize ''a>=b'' =
     Inr [token ''a'' Identifier, token ''>'' Greater, token ''='' Equals,
          token ''b'' Identifier, eof_token]"
    by (simp add: eval_defs)
  from two_character_operators [of "''1''" "[token ''a'' Identifier]"] one t
  show ?thesis by (simp add: token_def)
qed

subsection \<open>C5\<close>

text \<open>
  C5. For a maximal run of digits (a non-empty run, followed by no digit), \<^verbatim>\<open>tokenize\<close>
  returns exactly one \<open>Number\<close> token for the run, whose text is the run, followed by
  the tokens of the text behind the run; at every state of the loop that token comes
  right after the tokens pushed before. And every \<open>Number\<close> token of a returned sequence
  has a non-empty text of digits: no decimal point, no exponent, no sign.
\<close>

theorem digit_run_is_one_number:
  "(num \<noteq> [] \<and> list_all (\<lambda>c. isint [c]) num \<and> (rest = [] \<or> \<not> isint [hd rest]) \<longrightarrow>
      tokenize (num @ rest) = prepend [\<lparr>value = num, type = Number\<rparr>] (tokenize rest) \<and>
      scan (num @ rest) tokens =
        prepend (tokens @ [\<lparr>value = num, type = Number\<rparr>]) (tokenize rest)) \<and>
   (tokenize sourceCode = Inr out \<and> t \<in> set out \<and> type t = Number \<longrightarrow>
      value t \<noteq> [] \<and> set (value t) \<subseteq> set ''0123456789'')"
proof (intro conjI impI)
  assume run: "num \<noteq> [] \<and> list_all (\<lambda>c. isint [c]) num \<and> (rest = [] \<or> \<not> isint [hd rest])"
  then have step: "scan (num @ rest) ts = scan rest (ts @ [\<lparr>value = num, type = Number\<rparr>])" for ts
    using scan_number [of num rest ts] by (simp add: token_def)
  then show "tokenize (num @ rest) = prepend [\<lparr>value = num, type = Number\<rparr>] (tokenize rest)"
    by (rule tokenize_then)
  show "scan (num @ rest) tokens =
      prepend (tokens @ [\<lparr>value = num, type = Number\<rparr>]) (tokenize rest)"
    by (simp only: step scan_then)
next
  assume a: "tokenize sourceCode = Inr out \<and> t \<in> set out \<and> type t = Number"
  then obtain new where "out = new @ [eof_token]" "\<forall>t\<in>set new. produced t"
    by (blast elim: tokenize_returns)
  with a have "produced t" by auto
  from produced_Number [OF this] a
  have "value t \<noteq> []" and "list_all (\<lambda>c. isint [c]) (value t)" by simp_all
  then show "value t \<noteq> []" and "set (value t) \<subseteq> set ''0123456789''"
    unfolding isint_iff list_all_iff by blast+
qed

text \<open>C5 on the run \<^verbatim>\<open>42\<close>, and the text \<^verbatim>\<open>-42.5e3\<close> lexed as six tokens.\<close>

theorem digit_run_is_one_number_witness:
  "tokenize ''42.5'' = Inr [token ''42'' Number, token ''.'' Dot, token ''5'' Number, eof_token] \<and>
   scan ''42.5'' [token ''-'' BinaryOperator] =
     Inr [token ''-'' BinaryOperator, token ''42'' Number, token ''.'' Dot, token ''5'' Number,
          eof_token] \<and>
   tokenize ''-42.5e3'' =
     Inr [token ''-'' BinaryOperator, token ''42'' Number, token ''.'' Dot, token ''5'' Number,
          token ''e'' Identifier, token ''3'' Number, eof_token] \<and>
   set ''42'' \<subseteq> set ''0123456789''"
proof -
  have r: "tokenize ''.5'' = Inr [token ''.'' Dot, token ''5'' Number, eof_token]"
    by (simp add: eval_defs)
  have t: "tokenize ''-42.5e3'' =
     Inr [token ''-'' BinaryOperator, token ''42'' Number, token ''.'' Dot, token ''5'' Number,
          token ''e'' Identifier, token ''3'' Number, eof_token]"
    by (simp add: eval_defs)
  from digit_run_is_one_number [of "''42''" "''.5''" "[token ''-'' BinaryOperator]" "''-42.5e3''"
      "[token ''-'' BinaryOperator, token ''42'' Number, token ''.'' Dot, token ''5'' Number,
          token ''e'' Identifier, token ''3'' Number, eof_token]" "token ''42'' Number"] r t
  show ?thesis by (simp add: isint_def token_def)
qed

subsection \<open>C6\<close>

text \<open>
  C6. For a maximal run of letters and underscores (non-empty, followed by no letter or
  underscore), \<^verbatim>\<open>tokenize\<close> returns exactly one token for the run, whose text is the run,
  followed by the tokens of the text behind the run; at every state of the loop that
  token comes right after the tokens pushed before. Its kind is the keyword's kind exactly
  when the whole run is one of \<^verbatim>\<open>let\<close>, \<^verbatim>\<open>const\<close>, \<^verbatim>\<open>fn\<close>, \<^verbatim>\<open>if\<close>, \<^verbatim>\<open>else\<close>,
  \<^verbatim>\<open>for\<close>, case-sensitive, and \<open>Identifier\<close> exactly when it is none of them.
\<close>

theorem letter_run_is_keyword_or_identifier:
  assumes "isalpha ident" and "rest = [] \<or> \<not> isalpha [hd rest]"
  shows "\<exists>kind.
           tokenize (ident @ rest) = prepend [\<lparr>value = ident, type = kind\<rparr>] (tokenize rest) \<and>
           scan (ident @ rest) tokens =
             prepend (tokens @ [\<lparr>value = ident, type = kind\<rparr>]) (tokenize rest) \<and>
           (kind = Let_tok \<longleftrightarrow> ident = ''let'') \<and>
           (kind = Const \<longleftrightarrow> ident = ''const'') \<and>
           (kind = Fn \<longleftrightarrow> ident = ''fn'') \<and>
           (kind = If_tok \<longleftrightarrow> ident = ''if'') \<and>
           (kind = Else \<longleftrightarrow> ident = ''else'') \<and>
           (kind = For \<longleftrightarrow> ident = ''for'') \<and>
           (kind = Identifier \<longleftrightarrow>
              ident \<notin> {''let'', ''const'', ''fn'', ''if'', ''else'', ''for''})"
proof -
  let ?kind = "case KEYWORDS ident of Some reserved \<Rightarrow> reserved | None \<Rightarrow> Identifier"
  have step: "scan (ident @ rest) ts = scan rest (ts @ [\<lparr>value = ident, type = ?kind\<rparr>])" for ts
    using scan_ident [OF assms, of ts] by (simp add: token_def)
  then have whole:
    "tokenize (ident @ rest) = prepend [\<lparr>value = ident, type = ?kind\<rparr>] (tokenize rest)"
    by (rule tokenize_then)
  have state: "scan (ident @ rest) tokens =
      prepend (tokens @ [\<lparr>value = ident, type = ?kind\<rparr>]) (tokenize rest)"
    by (simp only: step scan_then)
  have kinds: "(?kind = Let_tok \<longleftrightarrow> ident = ''let'') \<and>
           (?kind = Const \<longleftrightarrow> ident = ''const'') \<and>
           (?kind = Fn \<longleftrightarrow> ident = ''fn'') \<and>
           (?kind = If_tok \<longleftrightarrow> ident = ''if'') \<and>
           (?kind = Else \<longleftrightarrow> ident = ''else'') \<and>
           (?kind = For \<longleftrightarrow> ident = ''for'') \<and>
           (?kind = Identifier \<longleftrightarrow>
              ident \<notin> {''let'', ''const'', ''fn'', ''if'', ''else'', ''for''})"
  proof -
    consider "ident = ''let''" | "ident = ''const''" | "ident = ''fn''" | "ident = ''if''"
      | "ident = ''else''" | "ident = ''for''"
      | "ident \<notin> {''let'', ''const'', ''fn'', ''if'', ''else'', ''for''}"
      by blast
    then show ?thesis
    proof cases
      case 1 then show ?thesis by (simp add: KEYWORDS_def)
    next
      case 2 then show ?thesis by (simp add: KEYWORDS_def)
    next
      case 3 then show ?thesis by (simp add: KEYWORDS_def)
    next
      case 4 then show ?thesis by (simp add: KEYWORDS_def)
    next
      case 5 then show ?thesis by (simp add: KEYWORDS_def)
    next
      case 6 then show ?thesis by (simp add: KEYWORDS_def)
    next
      case 7
      then have "KEYWORDS ident = None" by (simp add: KEYWORDS_def)
      with 7 show ?thesis by simp
    qed
  qed
  show ?thesis
    by (rule exI [of _ ?kind]) (rule conjI [OF whole conjI [OF state kinds]])
qed

text \<open>C6 on the runs \<^verbatim>\<open>let\<close>, \<^verbatim>\<open>lets\<close> and \<^verbatim>\<open>Let\<close>.\<close>

theorem letter_run_is_keyword_or_identifier_witness:
  "isalpha ''let'' \<and> isalpha ''lets'' \<and> isalpha ''Let'' \<and>
   tokenize ''let x'' = Inr [token ''let'' Let_tok, token ''x'' Identifier, eof_token] \<and>
   tokenize ''lets x'' = Inr [token ''lets'' Identifier, token ''x'' Identifier, eof_token] \<and>
   tokenize ''Let x'' = Inr [token ''Let'' Identifier, token ''x'' Identifier, eof_token] \<and>
   scan ''let x'' [token '';'' Semicolon] =
     Inr [token '';'' Semicolon, token ''let'' Let_tok, token ''x'' Identifier, eof_token]"
proof -
  have a: "isalpha ''let''" "isalpha ''lets''" "isalpha ''Let''"
    by (simp_all add: isalpha_def isalpha_char_def)
  have r: "'' x'' = [] \<or> \<not> isalpha [hd '' x'']"
    by (simp add: isalpha_def isalpha_char_def)
  have x: "tokenize '' x'' = Inr [token ''x'' Identifier, eof_token]"
    by (simp add: eval_defs)
  from letter_run_is_keyword_or_identifier [OF a(1) r, of "[token '';'' Semicolon]"] x
  have 1: "tokenize ''let x'' = Inr [token ''let'' Let_tok, token ''x'' Identifier, eof_token]"
    "scan ''let x'' [token '';'' Semicolon] =
     Inr [token '';'' Semicolon, token ''let'' Let_tok, token ''x'' Identifier, eof_token]"
    by (auto simp: token_def)
  from letter_run_is_keyword_or_identifier [OF a(2) r, of "[]"] x
  have 2: "tokenize ''lets x'' = Inr [token ''lets'' Identifier, token ''x'' Identifier, eof_token]"
    by (auto simp: token_def)
  from letter_run_is_keyword_or_identifier [OF a(3) r, of "[]"] x
  have 3: "tokenize ''Let x'' = Inr [token ''Let'' Identifier, token ''x'' Identifier, eof_token]"
    by (auto simp: token_def)
  from 1 2 3 a show ?thesis by simp
qed

subsection \<open>C7\<close>

text \<open>
  C7. For a double quote, followed by a text without a double quote and then by a double
  quote, \<^verbatim>\<open>tokenize\<close> returns exactly one \<open>String\<close> token, whose text is the text
  between the quotes, character for character (a backslash is a character like any
  other), followed by the tokens of the text behind the closing quote; at every state of
  the loop that token comes right after the tokens pushed before. And no \<open>String\<close>
  token of a returned sequence holds a double quote.
\<close>

theorem string_literal_is_verbatim:
  "(CHR 0x22 \<notin> set str \<longrightarrow>
      tokenize (CHR 0x22 # str @ CHR 0x22 # rest) =
        prepend [\<lparr>value = str, type = String\<rparr>] (tokenize rest) \<and>
      scan (CHR 0x22 # str @ CHR 0x22 # rest) tokens =
        prepend (tokens @ [\<lparr>value = str, type = String\<rparr>]) (tokenize rest)) \<and>
   (tokenize sourceCode = Inr out \<and> t \<in> set out \<and> type t = String \<longrightarrow>
      CHR 0x22 \<notin> set (value t))"
proof (intro conjI impI)
  assume "CHR 0x22 \<notin> set str"
  then have step: "scan (CHR 0x22 # str @ CHR 0x22 # rest) ts =
      scan rest (ts @ [\<lparr>value = str, type = String\<rparr>])" for ts
    using scan_string_closed [of str rest ts] by (simp add: token_def)
  then show "tokenize (CHR 0x22 # str @ CHR 0x22 # rest) =
      prepend [\<lparr>value = str, type = String\<rparr>] (tokenize rest)"
    by (rule tokenize_then)
  show "scan (CHR 0x22 # str @ CHR 0x22 # rest) tokens =
      prepend (tokens @ [\<lparr>value = str, type = String\<rparr>]) (tokenize rest)"
    by (simp only: step scan_then)
next
  assume a: "tokenize sourceCode = Inr out \<and> t \<in> set out \<and> type t = String"
  then obtain new where "out = new @ [eof_token]" "\<forall>t\<in>set new. produced t"
    by (blast elim: tokenize_returns)
  with a have "produced t" by auto
  from produced_String [OF this] a show "CHR 0x22 \<notin> set (value t)" by simp
qed

text \<open>C7 on a literal with a backslash, and a backslash before the closing quote.\<close>

theorem string_literal_is_verbatim_witness:
  "tokenize (CHR 0x22 # [CHR ''a'', CHR 0x5C, CHR ''n'', CHR '' '', CHR ''1''] @ CHR 0x22 # '';'') =
     Inr [\<lparr>value = [CHR ''a'', CHR 0x5C, CHR ''n'', CHR '' '', CHR ''1''], type = String\<rparr>,
          \<lparr>value = '';'', type = Semicolon\<rparr>, eof_token] \<and>
   scan (CHR 0x22 # [CHR ''a'', CHR 0x5C, CHR ''n'', CHR '' '', CHR ''1''] @ CHR 0x22 # '';'')
       [\<lparr>value = ''='', type = Equals\<rparr>] =
     Inr [\<lparr>value = ''='', type = Equals\<rparr>,
          \<lparr>value = [CHR ''a'', CHR 0x5C, CHR ''n'', CHR '' '', CHR ''1''], type = String\<rparr>,
          \<lparr>value = '';'', type = Semicolon\<rparr>, eof_token] \<and>
   tokenize [CHR 0x22, CHR ''a'', CHR 0x5C, CHR 0x22, CHR ''b'', CHR 0x22] =
     Inr [\<lparr>value = [CHR ''a'', CHR 0x5C], type = String\<rparr>, \<lparr>value = ''b'', type = Identifier\<rparr>,
          \<lparr>value = [], type = String\<rparr>, eof_token] \<and>
   CHR 0x22 \<notin> set [CHR ''a'', CHR 0x5C]"
proof -
  have r: "tokenize '';'' = Inr [\<lparr>value = '';'', type = Semicolon\<rparr>, eof_token]"
    by (simp add: eval_defs)
  have t: "tokenize [CHR 0x22, CHR ''a'', CHR 0x5C, CHR 0x22, CHR ''b'', CHR 0x22] =
     Inr [\<lparr>value = [CHR ''a'', CHR 0x5C], type = String\<rparr>, \<lparr>value = ''b'', type = Identifier\<rparr>,
          \<lparr>value = [], type = String\<rparr>, eof_token]"
    by (simp add: eval_defs)
  from string_literal_is_verbatim
    [of "[CHR ''a'', CHR 0x5C, CHR ''n'', CHR '' '', CHR ''1'']" "'';''"
      "[\<lparr>value = ''='', type = Equals\<rparr>]"
      "[CHR 0x22, CHR ''a'', CHR 0x5C, CHR 0x22, CHR ''b'', CHR 0x22]"
      "[\<lparr>value = [CHR ''a'', CHR 0x5C], type = String\<rparr>, \<lparr>value = ''b'', type = Identifier\<rparr>,
          \<lparr>value = [], type = String\<rparr>, eof_token]"
      "\<lparr>value = [CHR ''a'', CHR 0x5C], type = String\<rparr>"] r t
  show ?thesis by simp
qed

subsection \<open>C8\<close>

text \<open>
  C8, as stated, fails. The loop catches nothing, so a line that is neither empty nor
  holds \<^verbatim>\<open>exit\<close> ends the process as well when a stage fails on it: here the lexer
  meets \<^verbatim>\<open>#\<close> and exits with status 1, and the next line is never read.
\<close>

theorem repl_dies_on_unrecognized_character:
  "''1 # 2'' \<noteq> [] \<and> \<not> string_includes ''1 # 2'' ''exit'' \<and>
   repl sample_host () [''1 # 2'', ''3''] =
     ([Banner ''Repl v1.0 (Bussin)''],
      Some (ProcessExit [Text ''Unreconized character found in source: '', Num 35, Text ''#''] 1))"
  by (simp add: repl_def pipeline_def produceAST_def sample_host_def eval_defs)

text \<open>
  C8, amended. On an empty line, or a line that holds the text \<^verbatim>\<open>exit\<close> anywhere, the
  loop ends the process with status 1 and runs nothing. On every other line it runs the
  line as a program; when that returns a value the loop prints it and goes on with the
  next line, in the environment the evaluation left; when a stage fails (it ends the
  process, as the lexer does on an unrecognized character, or it throws), the loop ends
  with that failure.
\<close>

theorem repl_step:
  "(input = [] \<or> (\<exists>before after. input = before @ ''exit'' @ after) \<longrightarrow>
      repl_loop h env (input # lines) out = (out, Some (ProcessExit [] 1))) \<and>
   (input \<noteq> [] \<and> \<not> (\<exists>before after. input = before @ ''exit'' @ after) \<and>
    pipeline h env input = Inr (result, env') \<longrightarrow>
      repl_loop h env (input # lines) out = repl_loop h env' lines (out @ [Result result])) \<and>
   (input \<noteq> [] \<and> \<not> (\<exists>before after. input = before @ ''exit'' @ after) \<and>
    pipeline h env input = Inl a \<longrightarrow>
      repl_loop h env (input # lines) out = (out, Some a))"
  unfolding string_includes_iff [symmetric] by simp

text \<open>C8, amended, on an empty line, a line holding \<^verbatim>\<open>exit\<close>, the line \<^verbatim>\<open>1\<close> and the line \<^verbatim>\<open>#\<close>.\<close>

theorem repl_step_witness:
  "repl_loop sample_host () ['''', ''1''] [] = ([], Some (ProcessExit [] 1)) \<and>
   repl_loop sample_host () [''let exits = 1'', ''1''] [] = ([], Some (ProcessExit [] 1)) \<and>
   pipeline sample_host () ''1'' = Inr ([token ''1'' Number, eof_token], ()) \<and>
   repl_loop sample_host () [''1'', ''''] [] =
     repl_loop sample_host () [''''] [Result [token ''1'' Number, eof_token]] \<and>
   pipeline sample_host () ''#'' = Inl (unrecognized_exit CHR ''#'') \<and>
   repl_loop sample_host () [''#'', ''1''] [] = ([], Some (unrecognized_exit CHR ''#''))"
proof -
  have e: "\<exists>before after. ''let exits = 1'' = before @ ''exit'' @ after"
  proof -
    have "''let exits = 1'' = ''let '' @ ''exit'' @ ''s = 1''" by simp
    then show ?thesis by blast
  qed
  have n: "\<not> (\<exists>before after. ''1'' = before @ ''exit'' @ after)"
    and m: "\<not> (\<exists>before after. ''#'' = before @ ''exit'' @ after)"
    unfolding string_includes_iff [symmetric] by simp_all
  have p: "pipeline sample_host () ''1'' = Inr ([token ''1'' Number, eof_token], ())"
    by (simp add: pipeline_def produceAST_def sample_host_def eval_defs)
  have q: "pipeline sample_host () ''#'' = Inl (unrecognized_exit CHR ''#'')"
    by (simp add: pipeline_def produceAST_def sample_host_def eval_defs unrecognized_exit_def)
  from repl_step [where input = "[]" and h = sample_host and env = "()" and lines = "[''1'']"
      and out = "[]"]
  have 1: "repl_loop sample_host () ['''', ''1''] [] = ([], Some (ProcessExit [] 1))"
    by simp
  from repl_step [where input = "''let exits = 1''" and h = sample_host and env = "()"
      and lines = "[''1'']" and out = "[]"] e
  have 2: "repl_loop sample_host () [''let exits = 1'', ''1''] [] = ([], Some (ProcessExit [] 1))"
    by simp
  from repl_step [where input = "''1''" and h = sample_host and env = "()" and lines = "[[]]"
      and out = "[]" and result = "[token ''1'' Number, eof_token]" and env' = "()"] n p
  have 3: "repl_loop sample_host () [''1'', ''''] [] =
     repl_loop sample_host () [''''] [Result [token ''1'' Number, eof_token]]"
    by simp
  from repl_step [where input = "''#''" and h = sample_host and env = "()" and lines = "[''1'']"
      and out = "[]" and a = "unrecognized_exit CHR ''#''"] m q
  have 4: "repl_loop sample_host () [''#'', ''1''] [] = ([], Some (unrecognized_exit CHR ''#''))"
    by simp
  from 1 2 3 4 p q show ?thesis by simp
qed

subsection \<open>C9\<close>

text \<open>
  C9 fails on the code. \<^verbatim>\<open>run\<close> tests \<^verbatim>\<open>filename.endsWith("cbs")\<close>: the three letters,
  without the dot that starts an extension. The file names \<^verbatim>\<open>abcbs\<close>, \<^verbatim>\<open>cbs\<close> and
  \<^verbatim>\<open>x.abcbs\<close> do not carry the extension, and \<^verbatim>\<open>run\<close> does not ignore them: it reads the
  file (a failing read fails \<^verbatim>\<open>run\<close>), lexes it (a text the lexer rejects ends the
  process) and returns the value of the program. \<^verbatim>\<open>main.cbs\<close> is run as intended, and
  \<^verbatim>\<open>main.ts\<close> is ignored without a read.
\<close>

theorem run_reads_files_without_extension:
  "run sample_host () ''abcbs'' =
     Inr (Some [token ''1'' Number, token ''+'' BinaryOperator, token ''2'' Number, eof_token]) \<and>
   run sample_host () ''cbs'' =
     Inr (Some [token ''1'' Number, token ''+'' BinaryOperator, token ''2'' Number, eof_token]) \<and>
   run sample_host () ''x.abcbs'' =
     Inr (Some [token ''1'' Number, token ''+'' BinaryOperator, token ''2'' Number, eof_token]) \<and>
   run (sample_host\<lparr>readFileSync := (\<lambda>filename. Inl (Thrown ''ENOENT''))\<rparr>) () ''abcbs'' =
     Inl (Thrown ''ENOENT'') \<and>
   run (sample_host\<lparr>readFileSync := (\<lambda>filename. Inr ''#'')\<rparr>) () ''abcbs'' =
     Inl (unrecognized_exit CHR ''#'') \<and>
   run sample_host () ''main.cbs'' =
     Inr (Some [token ''1'' Number, token ''+'' BinaryOperator, token ''2'' Number, eof_token]) \<and>
   run (sample_host\<lparr>readFileSync := (\<lambda>filename. Inl (Thrown ''ENOENT''))\<rparr>) () ''main.ts'' =
     Inr None"
proof -
  have q: "pipeline (sample_host\<lparr>readFileSync := (\<lambda>filename. Inr ''#'')\<rparr>) () ''#'' =
      Inl (unrecognized_exit CHR ''#'')"
    by (simp add: pipeline_def produceAST_def sample_host_def eval_defs unrecognized_exit_def)
  have s: "pipeline sample_host () ''1 + 2'' =
      Inr ([token ''1'' Number, token ''+'' BinaryOperator, token ''2'' Number, eof_token], ())"
    by (simp add: pipeline_def produceAST_def sample_host_def eval_defs)
  have f: "readFileSync sample_host name = Inr ''1 + 2''" for name
    by (simp add: sample_host_def)
  show ?thesis
    by (simp add: run_def endsWith_def s q f)
qed

subsection \<open>C10\<close>



end
